theory Spec2Isabelle
  imports Complex_Main
begin

section \<open>Binary64 numbers\<close>

text \<open>
  Numbers of the scripts are binary64 numbers. A binary64 number is modelled by the real
  number it is, and the result of an arithmetic operation by the exact result rounded to
  the nearest representable number, ties to the even significand; a decimal literal
  denotes the rounding of its decimal value. For a positive number in the normal range,
  \<open>fl\<close> is that rounding: the number is scaled by powers of two into the range from
  \<open>2^52\<close> to \<open>2^53\<close>, rounded there to an integer, and scaled back. Subnormal numbers,
  overflow and negative numbers do not occur where the scripts compute.
\<close>

definition round_half_even :: "real \<Rightarrow> int" where
  "round_half_even x =
     (let f = \<lfloor>x\<rfloor>; d = x - of_int f
      in if d < 1 / 2 then f else if 1 / 2 < d then f + 1 else if even f then f else f + 1)"

function fl :: "real \<Rightarrow> real" where
  "fl x =
     (if x \<le> 0 then 0
      else if 2 ^ 53 \<le> x then 2 * fl (x / 2)
      else if x < 2 ^ 52 then fl (2 * x) / 2
      else of_int (round_half_even x))"
  by pat_completeness auto
termination
proof (relation "measures [\<lambda>x. nat \<lceil>2 ^ 52 / x\<rceil>, \<lambda>x. nat \<lceil>x / 2 ^ 52\<rceil>]")
  show "wf (measures [\<lambda>x::real. nat \<lceil>2 ^ 52 / x\<rceil>, \<lambda>x. nat \<lceil>x / 2 ^ 52\<rceil>])" by simp
next
  fix x :: real
  assume "\<not> x \<le> 0" and big: "2 ^ 53 \<le> x"
  then have pos: "0 < x" by simp
  have "\<lceil>2 ^ 52 / (x / 2)\<rceil> = 1"
    using pos big by (intro ceiling_unique) (simp_all add: field_simps)
  moreover have "\<lceil>2 ^ 52 / x\<rceil> = 1"
    using pos big by (intro ceiling_unique) (simp_all add: field_simps)
  moreover have "\<lceil>x / 2 / 2 ^ 52\<rceil> < \<lceil>x / 2 ^ 52\<rceil>"
  proof -
    have "of_int \<lceil>x / 2 / 2 ^ 52\<rceil> < x / 2 / 2 ^ 52 + 1" by linarith
    also have "\<dots> \<le> x / 2 ^ 52" using big by (simp add: field_simps)
    also have "\<dots> \<le> of_int \<lceil>x / 2 ^ 52\<rceil>" by linarith
    finally show ?thesis by simp
  qed
  moreover have "0 < \<lceil>x / 2 ^ 52\<rceil>" using pos by simp
  ultimately show "(x / 2, x) \<in> measures [\<lambda>x. nat \<lceil>2 ^ 52 / x\<rceil>, \<lambda>x. nat \<lceil>x / 2 ^ 52\<rceil>]"
    by simp
next
  fix x :: real
  assume "\<not> x \<le> 0" and "\<not> 2 ^ 53 \<le> x" and small: "x < 2 ^ 52"
  then have pos: "0 < x" by simp
  define w where "w = 2 ^ 52 / x"
  have w: "1 < w" using pos small by (simp add: w_def field_simps)
  have half: "2 ^ 52 / (2 * x) = w / 2" by (simp add: w_def)
  have "\<lceil>w / 2\<rceil> < \<lceil>w\<rceil>"
  proof (cases "w \<le> 2")
    case True
    then have "\<lceil>w / 2\<rceil> = 1" using w by (intro ceiling_unique) simp_all
    moreover have "1 < \<lceil>w\<rceil>" using w by linarith
    ultimately show ?thesis by simp
  next
    case False
    have "of_int \<lceil>w / 2\<rceil> < w / 2 + 1" by linarith
    also have "\<dots> < w" using False by simp
    also have "\<dots> \<le> of_int \<lceil>w\<rceil>" by linarith
    finally show ?thesis by simp
  qed
  moreover have "0 < \<lceil>w\<rceil>" using w by linarith
  ultimately show "(2 * x, x) \<in> measures [\<lambda>x. nat \<lceil>2 ^ 52 / x\<rceil>, \<lambda>x. nat \<lceil>x / 2 ^ 52\<rceil>]"
    unfolding half [symmetric] w_def by simp
qed

declare fl.simps [simp del]

section \<open>The scroll indicator of a gallery (static/gallery.js)\<close>

subsection \<open>The document\<close>

text \<open>
  DOM elements are objects with identity; an element is modelled by a number that names
  it. The only part of an element that the script writes is its \<open>classList\<close>, an
  ordered set of tokens. The document is the store that gives every element its class
  list: all galleries of a page live in the same store.
\<close>

type_synonym element = nat

type_synonym classList = "string list"

type_synonym document = "element \<Rightarrow> classList"

text \<open>
  \<open>classList.toggle(token, force)\<close> with the second argument given: the token is
  appended when \<open>force\<close> is true and the list lacks it, removed when \<open>force\<close> is
  false and the list has it, and the list is left alone otherwise. The script drops the
  returned boolean.
\<close>

definition classList_toggle :: "classList \<Rightarrow> string \<Rightarrow> bool \<Rightarrow> classList" where
  "classList_toggle cl token force =
     (if token \<in> set cl
      then (if \<not> force then removeAll token cl else cl)
      else (if force then cl @ [token] else cl))"

text \<open>An indicator is active when its class list contains \<open>Active\<close>.\<close>

definition is_active :: "document \<Rightarrow> element \<Rightarrow> bool" where
  "is_active doc x = (''Active'' \<in> set (doc x))"

subsection \<open>A gallery and its handler\<close>

text \<open>
  The closure that \<open>AllIndicatorLists.forEach\<close> builds for one indicator list: the
  array \<open>Images\<close> of the \<open>li\<close> children of the post's image list and the array
  \<open>Indicators\<close> of the \<open>li.ScrollIndicator\<close> elements below the indicator list.
  Both come from \<open>querySelectorAll\<close>, which the page's markup decides.
\<close>

record gallery =
  Images :: "element list"
  Indicators :: "element list"

text \<open>One \<open>IntersectionObserverEntry\<close>, with the three fields the handler reads.\<close>

record entry =
  target :: element
  isIntersecting :: bool
  intersectionRatio :: real

text \<open>
  \<open>Array.prototype.indexOf\<close>: the first index whose element is the one searched,
  and \<open>-1\<close> when no index has it.
\<close>

fun indexOf_from :: "'a list \<Rightarrow> nat \<Rightarrow> 'a \<Rightarrow> int" where
  "indexOf_from [] k x = - 1"
| "indexOf_from (y # ys) k x = (if y = x then int k else indexOf_from ys (Suc k) x)"

definition indexOf :: "'a list \<Rightarrow> 'a \<Rightarrow> int" where
  "indexOf xs x = indexOf_from xs 0 x"

text \<open>
  \<open>activateIndicator(index)\<close>: \<open>Indicators.forEach((indicator, i) => \<dots>)\<close> visits the
  indicators in ascending order, \<open>i\<close> counting from 0, and toggles \<open>Active\<close> on each
  with \<open>force = (i === index)\<close>.
\<close>

fun activate_from :: "element list \<Rightarrow> nat \<Rightarrow> int \<Rightarrow> document \<Rightarrow> document" where
  "activate_from [] i index doc = doc"
| "activate_from (indicator # rest) i index doc =
     activate_from rest (Suc i) index
       (doc(indicator := classList_toggle (doc indicator) ''Active'' (int i = index)))"

definition activateIndicator :: "gallery \<Rightarrow> int \<Rightarrow> document \<Rightarrow> document" where
  "activateIndicator g index doc = activate_from (Indicators g) 0 index doc"

text \<open>The binary64 number that the literal \<open>0.6\<close> denotes.\<close>

definition threshold :: real where
  "threshold = fl (6 / 10)"

text \<open>
  The test of the handler: \<open>entry.isIntersecting && entry.intersectionRatio >= 0.6\<close>.
\<close>

definition qualifies :: "entry \<Rightarrow> bool" where
  "qualifies e = (isIntersecting e \<and> intersectionRatio e \<ge> threshold)"

definition on_entry :: "gallery \<Rightarrow> entry \<Rightarrow> document \<Rightarrow> document" where
  "on_entry g e doc =
     (if qualifies e
      then activateIndicator g (indexOf (Images g) (target e)) doc
      else doc)"

text \<open>\<open>onIntersectionObserved(entries)\<close>: the entries of a batch, in the order delivered.\<close>

definition onIntersectionObserved :: "gallery \<Rightarrow> entry list \<Rightarrow> document \<Rightarrow> document" where
  "onIntersectionObserved g entries doc = fold (on_entry g) entries doc"

text \<open>
  Modelled from the spec: the markup of the page, which is not among the scripts. The
  data model gives one indicator per image, in the same order; and \<open>querySelectorAll\<close>
  returns no element twice.
\<close>

definition wf_gallery :: "gallery \<Rightarrow> bool" where
  "wf_gallery g =
     (distinct (Images g) \<and> distinct (Indicators g) \<and> length (Images g) = length (Indicators g))"

text \<open>The number of active indicators of a gallery.\<close>

definition active_count :: "gallery \<Rightarrow> document \<Rightarrow> nat" where
  "active_count g doc = length (filter (is_active doc) (Indicators g))"

text \<open>
  Modelled from the spec: the markup of the page when it is loaded, before any
  notification; the scripts do not write it. "Initial state: zero active".
\<close>

definition page_loaded :: "gallery \<Rightarrow> document \<Rightarrow> bool" where
  "page_loaded g doc = (active_count g doc = 0)"

text \<open>
  Batches are delivered one after the other; each runs the handler on the document that
  the batch before it left.
\<close>

definition deliver :: "gallery \<Rightarrow> entry list list \<Rightarrow> document \<Rightarrow> document" where
  "deliver g batches doc = fold (onIntersectionObserved g) batches doc"

text \<open>The forces that one pass of \<open>activateIndicator\<close> applies to the element \<open>y\<close>, in order.\<close>

fun forces :: "element list \<Rightarrow> nat \<Rightarrow> int \<Rightarrow> element \<Rightarrow> bool list" where
  "forces [] i index y = []"
| "forces (x # xs) i index y =
     (if x = y then [int i = index] else []) @ forces xs (Suc i) index y"

definition toggles :: "bool list \<Rightarrow> classList \<Rightarrow> classList" where
  "toggles bs cl = fold (\<lambda>b c. classList_toggle c ''Active'' b) bs cl"

subsection \<open>A page with two galleries\<close>

text \<open>Concrete galleries and documents, on which the theorems below are instantiated.\<close>

definition gallery_A :: gallery where
  "gallery_A = \<lparr>Images = [10, 11, 12, 13, 14, 15], Indicators = [20, 21, 22, 23, 24, 25]\<rparr>"

definition gallery_B :: gallery where
  "gallery_B = \<lparr>Images = [30, 31], Indicators = [40, 41]\<rparr>"

definition doc_none :: document where
  "doc_none = (\<lambda>x. [''ScrollIndicator''])"

definition doc_first :: document where
  "doc_first = doc_none(20 := [''ScrollIndicator'', ''Active''])"

section \<open>The upload helper\<close>

subsection \<open>The base path\<close>

text \<open>
  At load the script matches \<open>url.pathname\<close> against the regular expression
  \<open>^(/.*)?/upload/?$\<close> with the flag \<open>i\<close>. The expression anchors at both ends, so
  a match ends with \<open>/upload\<close> or with \<open>/upload/\<close>, in any letter case; what stands
  before is the first group, which is either absent or starts with \<open>/\<close> and holds no
  line terminator (\<open>.\<close> matches none). A path cannot end in both ways, so the split is
  unique. Path names are ASCII.
\<close>

definition ascii_lower :: "char \<Rightarrow> char" where
  "ascii_lower c =
     (case map_of (zip ''ABCDEFGHIJKLMNOPQRSTUVWXYZ'' ''abcdefghijklmnopqrstuvwxyz'') c of
        Some l \<Rightarrow> l
      | None \<Rightarrow> c)"

definition ends_with_ci :: "string \<Rightarrow> string \<Rightarrow> bool" where
  "ends_with_ci s suffix =
     (length suffix \<le> length s \<and> map ascii_lower (drop (length s - length suffix) s) = suffix)"

definition line_terminator :: "char \<Rightarrow> bool" where
  "line_terminator c = (c = CHR 0x0A \<or> c = CHR 0x0D)"

text \<open>
  The result of \<open>match\<close>: \<open>None\<close> is \<open>null\<close>, \<open>Some None\<close> a match whose first
  group is \<open>undefined\<close>, \<open>Some (Some g)\<close> a match with first group \<open>g\<close>.
\<close>

definition match_upload :: "string \<Rightarrow> string option option" where
  "match_upload pathname =
     (let tail = (if ends_with_ci pathname ''/upload/'' then Some 8
                  else if ends_with_ci pathname ''/upload'' then Some 7
                  else None)
      in case tail of
           None \<Rightarrow> None
         | Some k \<Rightarrow>
             (let before = take (length pathname - k) pathname
              in if before = [] then Some None
                 else if hd before = CHR ''/'' \<and> list_all (\<lambda>c. \<not> line_terminator c) before
                 then Some (Some before)
                 else None))"

definition serve_prefix :: "string \<Rightarrow> string" where
  "serve_prefix pathname = (case match_upload pathname of Some (Some g) \<Rightarrow> g | _ \<Rightarrow> [])"

subsection \<open>The request\<close>

text \<open>
  A \<open>File\<close> of the file input, with its \<open>size\<close> in bytes (the field is named
  \<open>file_size\<close> here). A \<open>FormData\<close> is the list of its entries, in the order
  appended; a request body of this type is sent as multipart form data.
\<close>

record File =
  file_name :: string
  file_size :: nat

datatype form_value = StringValue string | FileValue File

type_synonym FormData = "(string \<times> form_value) list"

definition FormData_append :: "FormData \<Rightarrow> string \<Rightarrow> form_value \<Rightarrow> FormData" where
  "FormData_append formdata name v = formdata @ [(name, v)]"

text \<open>
  The two controls that \<open>postFile\<close> reads: the value of \<open>Desc\<close> and the files
  selected in \<open>FilesToUpload\<close>.
\<close>

record upload_form =
  Desc :: string
  FilesToUpload :: "File list"

text \<open>
  The loop \<open>for (let i = 0; i < files_control.files.length; i++)\<close>: it appends each
  file under the name \<open>FileToUpload\<close> and adds its size to \<open>total_size\<close>. Sizes are
  whole numbers of bytes; they are modelled without the limit of exactly represented
  integers.
\<close>

function files_loop :: "File list \<Rightarrow> nat \<Rightarrow> FormData \<Rightarrow> nat \<Rightarrow> FormData \<times> nat" where
  "files_loop files i formdata total_size =
     (if i < length files
      then files_loop files (i + 1)
             (FormData_append formdata ''FileToUpload'' (FileValue (files ! i)))
             (total_size + file_size (files ! i))
      else (formdata, total_size))"
  by pat_completeness auto
termination
  by (relation "measure (\<lambda>(files, i, formdata, total_size). length files - i)") auto

declare files_loop.simps [simp del]

text \<open>
  What \<open>postFile\<close> does with the \<open>XMLHttpRequest\<close> it creates, as the list of calls
  in program order. The progress listener is the closure over \<open>total_size\<close>.
\<close>

datatype xhr_call =
    AddUploadListener string nat
  | Open string string
  | SetTimeout nat
  | Send FormData

definition postFile :: "string \<Rightarrow> upload_form \<Rightarrow> xhr_call list" where
  "postFile prefix form =
     (let formdata = FormData_append [] ''Desc'' (StringValue (Desc form));
          (formdata, total_size) = files_loop (FilesToUpload form) 0 formdata 0
      in [AddUploadListener ''progress'' total_size,
          Open ''post'' (prefix @ ''/upload/''),
          SetTimeout 3600000,
          Send formdata])"

fun is_Send :: "xhr_call \<Rightarrow> bool" where
  "is_Send (Send b) = True"
| "is_Send c = False"

subsection \<open>The percentage\<close>

text \<open>
  \<open>Math.round\<close> gives the nearest integer and, of two equally near, the greater.
\<close>

definition Math_round :: "real \<Rightarrow> int" where
  "Math_round y = \<lfloor>y + 1 / 2\<rfloor>"

text \<open>
  The value of \<open>Math.round(e.loaded / total_size * 100)\<close>, for \<open>e.loaded = sent\<close>: the
  quotient and the product are rounded to binary64. Division by zero gives
  \<open>NaN\<close> for \<open>0 / 0\<close> and \<open>Infinity\<close> for a positive dividend.
\<close>

datatype number = Num int | NaN | Infinity

definition percent_of :: "nat \<Rightarrow> nat \<Rightarrow> number" where
  "percent_of sent total_size =
     (if total_size = 0 then (if sent = 0 then NaN else Infinity)
      else Num (Math_round (fl (fl (real sent / real total_size) * 100))))"

text \<open>
  \<open>percent + '%'\<close> converts the number to its decimal text.
\<close>

definition digit_char :: "nat \<Rightarrow> char" where
  "digit_char d = ''0123456789'' ! d"

fun decimal :: "nat \<Rightarrow> string" where
  "decimal n = (if n < 10 then [digit_char n] else decimal (n div 10) @ [digit_char (n mod 10)])"

declare decimal.simps [simp del]

definition to_string :: "number \<Rightarrow> string" where
  "to_string v =
     (case v of
        Num n \<Rightarrow> (if n < 0 then CHR ''-'' # decimal (nat (- n)) else decimal (nat n))
      | NaN \<Rightarrow> ''NaN''
      | Infinity \<Rightarrow> ''Infinity'')"

subsection \<open>The progress listener\<close>

record progress_event =
  loaded :: nat
  total :: nat

record progress_bar =
  style_width :: string
  innerHTML :: string

text \<open>
  An assignment to \<open>style.width\<close> that is not a valid width, as \<open>NaN%\<close>, is dropped
  by the style declaration; \<open>innerHTML\<close> takes any text.
\<close>

definition set_style_width :: "number \<Rightarrow> progress_bar \<Rightarrow> progress_bar" where
  "set_style_width percent bar =
     (case percent of
        Num n \<Rightarrow> (if 0 \<le> n then bar\<lparr>style_width := to_string percent @ ''%''\<rparr> else bar)
      | _ \<Rightarrow> bar)"

definition progress_listener :: "nat \<Rightarrow> progress_event \<Rightarrow> progress_bar \<Rightarrow> progress_bar" where
  "progress_listener total_size e bar =
     (let bar1 =
            (if loaded e \<le> total_size
             then (let percent = percent_of (loaded e) total_size
                   in (set_style_width percent bar)\<lparr>innerHTML := to_string percent @ ''%''\<rparr>)
             else bar)
      in if loaded e = total e
         then bar1\<lparr>style_width := ''100%'', innerHTML := ''100%''\<rparr>
         else bar1)"

text \<open>
  The percentage as the specification words it: bytes sent divided by bytes total, times
  100, rounded to the nearest integer.
\<close>

definition claimed_percent :: "nat \<Rightarrow> nat \<Rightarrow> int" where
  "claimed_percent sent bytes_total = round (real sent / real bytes_total * 100)"

text \<open>Concrete inputs for the upload helper.\<close>

definition bar_empty :: progress_bar where
  "bar_empty = \<lparr>style_width = ''0%'', innerHTML = []\<rparr>"

definition form_example :: upload_form where
  "form_example = \<lparr>Desc = ''holiday'',
     FilesToUpload = [\<lparr>file_name = ''a.jpg'', file_size = 700\<rparr>, \<lparr>file_name = ''b.jpg'', file_size = 324\<rparr>]\<rparr>"

section \<open>Properties of the class list and of the search\<close>

lemma toggle_active_iff:
  "(token \<in> set (classList_toggle cl token b)) = b"
  by (simp add: classList_toggle_def)

lemma activate_from_apply:
  "activate_from xs i index doc y = toggles (forces xs i index y) (doc y)"
  by (induction xs arbitrary: i doc) (simp_all add: toggles_def)

lemma forces_empty_iff: "(forces xs i index y = []) = (y \<notin> set xs)"
  by (induction xs arbitrary: i) auto

lemma toggles_active_iff:
  "(''Active'' \<in> set (toggles bs cl)) = (if bs = [] then ''Active'' \<in> set cl else last bs)"
proof (induction bs rule: rev_induct)
  case Nil
  show ?case by (simp add: toggles_def)
next
  case (snoc b bs)
  have "toggles (bs @ [b]) cl = classList_toggle (toggles bs cl) ''Active'' b"
    by (simp add: toggles_def)
  then show ?case by (simp add: toggle_active_iff)
qed

lemma toggles_snoc: "toggles (bs @ [b]) cl = classList_toggle (toggles bs cl) ''Active'' b"
  by (simp add: toggles_def)

lemma toggles_form:
  "toggles bs cl =
     (if False \<in> set bs
      then (if last bs then removeAll ''Active'' cl @ [''Active''] else removeAll ''Active'' cl)
      else (if bs = [] \<or> ''Active'' \<in> set cl then cl else cl @ [''Active'']))"
proof (induction bs rule: rev_induct)
  case Nil
  show ?case by (simp add: toggles_def)
next
  case (snoc b bs)
  show ?case
    unfolding toggles_snoc
    by (subst snoc.IH) (auto simp: classList_toggle_def)
qed

lemma toggles_idem: "toggles bs (toggles bs cl) = toggles bs cl"
  by (subst (1 2 3) toggles_form) (auto)

lemma forces_nth:
  "distinct xs \<Longrightarrow> j < length xs \<Longrightarrow> forces xs i index (xs ! j) = [int (i + j) = index]"
proof (induction xs arbitrary: i j)
  case Nil
  then show ?case by simp
next
  case (Cons x xs)
  show ?case
  proof (cases j)
    case 0
    with Cons.prems show ?thesis by (simp add: forces_empty_iff)
  next
    case (Suc j')
    with Cons.prems have "xs ! j' \<noteq> x" "j' < length xs" "distinct xs" by auto
    with Cons.IH [of j' "Suc i"] Suc show ?thesis by simp
  qed
qed

lemma forces_none:
  "\<forall>k < length xs. int (i + k) \<noteq> index \<Longrightarrow> b \<in> set (forces xs i index y) \<Longrightarrow> \<not> b"
proof (induction xs arbitrary: i)
  case Nil
  then show ?case by simp
next
  case (Cons x xs)
  have "\<forall>k < length xs. int (Suc i + k) \<noteq> index"
    using Cons.prems(1) by fastforce
  moreover have "int i \<noteq> index" using Cons.prems(1) by fastforce
  ultimately show ?case using Cons.IH [of "Suc i"] Cons.prems(2)
    by (auto split: if_splits)
qed

lemma indexOf_from_absent: "x \<notin> set xs \<Longrightarrow> indexOf_from xs k x = - 1"
  by (induction xs arbitrary: k) auto

lemma indexOf_from_nth:
  "distinct xs \<Longrightarrow> j < length xs \<Longrightarrow> indexOf_from xs k (xs ! j) = int (k + j)"
proof (induction xs arbitrary: k j)
  case Nil
  then show ?case by simp
next
  case (Cons x xs)
  show ?case
  proof (cases j)
    case 0
    then show ?thesis by simp
  next
    case (Suc j')
    with Cons.prems have "xs ! j' \<noteq> x" "j' < length xs" "distinct xs" by auto
    with Cons.IH [of j' "Suc k"] Suc show ?thesis by simp
  qed
qed

lemma indexOf_from_present:
  "x \<in> set xs \<Longrightarrow> \<exists>j < length xs. indexOf_from xs k x = int (k + j) \<and> xs ! j = x"
proof (induction xs arbitrary: k)
  case Nil
  then show ?case by simp
next
  case (Cons y ys)
  show ?case
  proof (cases "y = x")
    case True
    then show ?thesis by auto
  next
    case False
    with Cons.prems have "x \<in> set ys" by simp
    from Cons.IH [OF this, of "Suc k"] obtain j where
      "j < length ys" "indexOf_from ys (Suc k) x = int (Suc k + j)" "ys ! j = x" by blast
    with False show ?thesis by (intro exI [of _ "Suc j"]) simp
  qed
qed

lemma activateIndicator_frame:
  "y \<notin> set (Indicators g) \<Longrightarrow> activateIndicator g index doc y = doc y"
  by (simp add: activateIndicator_def activate_from_apply forces_empty_iff [THEN iffD2] toggles_def)

lemma activateIndicator_nth:
  "distinct (Indicators g) \<Longrightarrow> j < length (Indicators g) \<Longrightarrow>
   is_active (activateIndicator g index doc) (Indicators g ! j) = (int j = index)"
  by (simp add: is_active_def activateIndicator_def activate_from_apply forces_nth
      toggles_active_iff)

lemma activateIndicator_none:
  assumes "index < 0 \<or> int (length (Indicators g)) \<le> index" and "x \<in> set (Indicators g)"
  shows "\<not> is_active (activateIndicator g index doc) x"
proof -
  let ?bs = "forces (Indicators g) 0 index x"
  have ne: "?bs \<noteq> []" using assms(2) by (simp add: forces_empty_iff)
  have "\<forall>k < length (Indicators g). int (0 + k) \<noteq> index" using assms(1) by auto
  then have "\<not> last ?bs" using forces_none [of "Indicators g" 0 index "last ?bs" x] ne
    by (meson last_in_set)
  with ne show ?thesis
    by (simp add: is_active_def activateIndicator_def activate_from_apply toggles_active_iff)
qed

lemma activateIndicator_idem:
  "activateIndicator g index (activateIndicator g index doc) = activateIndicator g index doc"
  by (rule ext) (simp add: activateIndicator_def activate_from_apply toggles_idem)

lemma on_entry_idem: "on_entry g e (on_entry g e doc) = on_entry g e doc"
  by (simp add: on_entry_def activateIndicator_idem)

lemma on_entry_frame: "y \<notin> set (Indicators g) \<Longrightarrow> on_entry g e doc y = doc y"
  by (simp add: on_entry_def activateIndicator_frame)

lemma onIntersectionObserved_frame:
  "y \<notin> set (Indicators g) \<Longrightarrow> onIntersectionObserved g es doc y = doc y"
  unfolding onIntersectionObserved_def
  by (induction es arbitrary: doc) (simp_all add: on_entry_frame)

lemma onIntersectionObserved_append:
  "onIntersectionObserved g (es @ fs) doc =
   onIntersectionObserved g fs (onIntersectionObserved g es doc)"
  by (simp add: onIntersectionObserved_def)

lemma deliver_concat: "deliver g batches doc = onIntersectionObserved g (concat batches) doc"
  unfolding deliver_def
  by (induction batches arbitrary: doc) (simp_all add: onIntersectionObserved_def)

lemma active_count_activate:
  assumes "distinct (Indicators g)"
  shows "active_count g (activateIndicator g index doc) =
         (if 0 \<le> index \<and> index < int (length (Indicators g)) then 1 else 0)"
proof (cases "0 \<le> index \<and> index < int (length (Indicators g))")
  case True
  let ?d = "activateIndicator g index doc"
  let ?a = "Indicators g ! nat index"
  from True have n: "nat index < length (Indicators g)" by linarith
  have "filter (is_active ?d) (Indicators g) = filter (\<lambda>x. x = ?a) (Indicators g)"
  proof (rule filter_cong [OF refl])
    fix x assume "x \<in> set (Indicators g)"
    then obtain j where j: "j < length (Indicators g)" "Indicators g ! j = x"
      by (auto simp: in_set_conv_nth)
    have "is_active ?d x = (int j = index)"
      using activateIndicator_nth [OF assms j(1)] j(2) by simp
    also have "\<dots> = (j = nat index)" using True by auto
    also have "\<dots> = (x = ?a)"
      using nth_eq_iff_index_eq [OF assms j(1) n] j(2) by simp
    finally show "is_active ?d x = (x = ?a)" .
  qed
  moreover have "?a \<in> set (Indicators g)" using n by simp
  then have "card ({x. x = ?a} \<inter> set (Indicators g)) = 1"
    by (simp add: Int_absorb2)
  ultimately show ?thesis using True assms
    by (simp add: active_count_def distinct_length_filter)
next
  case False
  then have oor: "index < 0 \<or> int (length (Indicators g)) \<le> index" by linarith
  have "filter (is_active (activateIndicator g index doc)) (Indicators g) = []"
    using activateIndicator_none [OF oor] by (simp add: filter_empty_conv)
  with False show ?thesis by (simp add: active_count_def)
qed

lemma threshold_value: "threshold = 5404319552844595 / 9007199254740992"
  by (simp add: threshold_def fl.simps round_half_even_def)

lemmas example_defs = gallery_A_def gallery_B_def doc_none_def doc_first_def
lemmas run_defs = onIntersectionObserved_def on_entry_def qualifies_def threshold_value
  fl.simps round_half_even_def activateIndicator_def
  indexOf_def classList_toggle_def is_active_def active_count_def

lemma on_entry_skip: "\<not> qualifies e \<Longrightarrow> on_entry g e doc = doc"
  by (simp add: on_entry_def)

lemma on_entry_activates:
  "qualifies e \<Longrightarrow> on_entry g e doc = activateIndicator g (indexOf (Images g) (target e)) doc"
  by (simp add: on_entry_def)

lemma onIntersectionObserved_single: "onIntersectionObserved g [e] doc = on_entry g e doc"
  by (simp add: onIntersectionObserved_def)

lemma onIntersectionObserved_skip:
  "\<forall>e \<in> set es. \<not> qualifies e \<Longrightarrow> onIntersectionObserved g es doc = doc"
  unfolding onIntersectionObserved_def
  by (induction es arbitrary: doc) (simp_all add: on_entry_skip)

lemma indexOf_nth: "distinct xs \<Longrightarrow> j < length xs \<Longrightarrow> indexOf xs (xs ! j) = int j"
  by (simp add: indexOf_def indexOf_from_nth)

lemma active_count_on_entry:
  "distinct (Indicators g) \<Longrightarrow> active_count g doc \<le> 1 \<Longrightarrow> active_count g (on_entry g e doc) \<le> 1"
  by (simp add: on_entry_def active_count_activate)

lemma active_count_observed:
  "distinct (Indicators g) \<Longrightarrow> active_count g doc \<le> 1 \<Longrightarrow>
   active_count g (onIntersectionObserved g es doc) \<le> 1"
  unfolding onIntersectionObserved_def
proof (induction es arbitrary: doc)
  case Nil
  then show ?case by simp
next
  case (Cons e es)
  from Cons.prems have "active_count g (on_entry g e doc) \<le> 1"
    by (rule active_count_on_entry)
  from Cons.IH [OF Cons.prems(1) this] show ?case by simp
qed

lemma toggles_all_false:
  "set bs \<subseteq> {False} \<Longrightarrow> ''Active'' \<notin> set cl \<Longrightarrow> toggles bs cl = cl"
proof (induction bs arbitrary: cl)
  case Nil
  show ?case by (simp add: toggles_def)
next
  case (Cons b bs)
  from Cons.prems have "classList_toggle cl ''Active'' b = cl"
    by (simp add: classList_toggle_def)
  then have "toggles (b # bs) cl = toggles bs cl" by (simp add: toggles_def)
  with Cons show ?case by simp
qed

lemma on_entry_nth:
  assumes "wf_gallery g" "qualifies e" "i < length (Images g)" "target e = Images g ! i"
  shows "on_entry g e doc = activateIndicator g (int i) doc"
  using assms by (simp add: on_entry_activates wf_gallery_def indexOf_nth)

lemma on_entry_nth_active:
  assumes "wf_gallery g" "qualifies e" "i < length (Images g)" "target e = Images g ! i"
    and "j < length (Indicators g)"
  shows "is_active (on_entry g e doc) (Indicators g ! j) = (j = i)"
  using assms by (simp add: on_entry_nth [OF assms(1-4)] activateIndicator_nth wf_gallery_def)

lemma active_count_after_qualifying:
  "distinct (Indicators g) \<Longrightarrow> list_ex qualifies es \<Longrightarrow>
   active_count g (onIntersectionObserved g es doc) \<le> 1"
proof (induction es arbitrary: doc)
  case Nil
  then show ?case by simp
next
  case (Cons e es)
  have step: "onIntersectionObserved g (e # es) doc = onIntersectionObserved g es (on_entry g e doc)"
    by (simp add: onIntersectionObserved_def)
  show ?case
  proof (cases "qualifies e")
    case True
    then have "active_count g (on_entry g e doc) \<le> 1"
      using Cons.prems(1) by (simp add: on_entry_activates active_count_activate)
    with Cons.prems(1) show ?thesis unfolding step by (rule active_count_observed)
  next
    case False
    with Cons.prems(2) have "list_ex qualifies es" by simp
    with Cons.prems(1) show ?thesis unfolding step by (rule Cons.IH)
  qed
qed

lemma toggle_same: "classList_toggle cl token (token \<in> set cl) = cl"
  by (simp add: classList_toggle_def)

lemma activate_from_same:
  "\<forall>j < length xs. is_active doc (xs ! j) = (int (k + j) = index) \<Longrightarrow>
   activate_from xs k index doc = doc"
proof (induction xs arbitrary: k)
  case Nil
  show ?case by simp
next
  case (Cons x xs)
  from Cons.prems have "is_active doc ((x # xs) ! 0) = (int (k + 0) = index)" by blast
  then have "(int k = index) = (''Active'' \<in> set (doc x))" by (simp add: is_active_def)
  then have head: "doc(x := classList_toggle (doc x) ''Active'' (int k = index)) = doc"
    by (simp add: toggle_same)
  have "\<forall>j < length xs. is_active doc (xs ! j) = (int (Suc k + j) = index)"
  proof (intro allI impI)
    fix j assume "j < length xs"
    then have "Suc j < length (x # xs)" by simp
    with Cons.prems have "is_active doc ((x # xs) ! Suc j) = (int (k + Suc j) = index)" by blast
    then show "is_active doc (xs ! j) = (int (Suc k + j) = index)" by simp
  qed
  then have "activate_from xs (Suc k) index doc = doc" by (rule Cons.IH)
  with head show ?case by simp
qed

section \<open>Properties of the upload helper\<close>

lemma files_loop_eq:
  "files_loop files i formdata total_size =
     (formdata @ map (\<lambda>f. (''FileToUpload'', FileValue f)) (drop i files),
      total_size + sum_list (map file_size (drop i files)))"
proof (induction files i formdata total_size rule: files_loop.induct)
  case (1 files i formdata total_size)
  show ?case
  proof (cases "i < length files")
    case True
    then have d: "drop i files = files ! i # drop (Suc i) files"
      by (simp add: Cons_nth_drop_Suc)
    from True "1.IH" show ?thesis
      by (subst files_loop.simps) (simp add: d FormData_append_def)
  next
    case False
    then show ?thesis by (subst files_loop.simps) simp
  qed
qed

lemma round_half_even_le: "x \<le> of_int k \<Longrightarrow> round_half_even x \<le> k"
proof -
  assume h: "x \<le> of_int k"
  then have f: "\<lfloor>x\<rfloor> \<le> k" by (simp add: floor_le_iff)
  show ?thesis
  proof (cases "\<lfloor>x\<rfloor> = k")
    case True
    then have "x - of_int \<lfloor>x\<rfloor> \<le> 0" using h by simp
    then show ?thesis using True by (simp add: round_half_even_def Let_def)
  next
    case False
    with f have "\<lfloor>x\<rfloor> + 1 \<le> k" by simp
    then show ?thesis by (simp add: round_half_even_def Let_def)
  qed
qed

lemma round_half_even_ge: "of_int k \<le> x \<Longrightarrow> k \<le> round_half_even x"
proof -
  assume "of_int k \<le> x"
  then have "k \<le> \<lfloor>x\<rfloor>" by (simp add: le_floor_iff)
  then show ?thesis by (simp add: round_half_even_def Let_def)
qed

lemma fl_nonneg: "0 \<le> fl x"
proof (induction x rule: fl.induct)
  case (1 x)
  show ?case
  proof (cases "x \<le> 0")
    case True
    then show ?thesis by (simp add: fl.simps)
  next
    case pos: False
    show ?thesis
    proof (cases "2 ^ 53 \<le> x")
      case True
      with pos "1.IH"(1) show ?thesis by (subst fl.simps) simp
    next
      case nb: False
      show ?thesis
      proof (cases "x < 2 ^ 52")
        case True
        with pos nb "1.IH"(2) show ?thesis by (subst fl.simps) simp
      next
        case False
        then have "of_int 0 \<le> x" by simp
        then have "0 \<le> round_half_even x" by (rule round_half_even_ge)
        with pos nb False show ?thesis by (subst fl.simps) simp
      qed
    qed
  qed
qed

lemma fl_le:
  "x \<le> c \<Longrightarrow> fl c = c \<Longrightarrow> fl x \<le> c"
proof (induction x arbitrary: c rule: fl.induct)
  case (1 x)
  have c0: "0 \<le> c" using fl_nonneg [of c] "1.prems"(2) by simp
  show ?case
  proof (cases "x \<le> 0")
    case True
    then show ?thesis using c0 by (simp add: fl.simps)
  next
    case pos: False
    show ?thesis
    proof (cases "2 ^ 53 \<le> x")
      case True
      with "1.prems" pos have "fl c = 2 * fl (c / 2)" by (subst fl.simps) simp
      with "1.prems" have "fl (c / 2) = c / 2" by simp
      moreover have "x / 2 \<le> c / 2" using "1.prems" by simp
      ultimately have "fl (x / 2) \<le> c / 2" using "1.IH"(1) [OF pos True] by blast
      moreover have "fl x = 2 * fl (x / 2)" using pos True by (subst fl.simps) simp
      ultimately show ?thesis by simp
    next
      case nb: False
      show ?thesis
      proof (cases "x < 2 ^ 52")
        case True
        have cpos: "\<not> c \<le> 0" using pos "1.prems"(1) by simp
        have "fl (2 * c) = 2 * c"
        proof (cases "c < 2 ^ 52")
          case True
          then have "fl c = fl (2 * c) / 2" using cpos by (subst fl.simps) simp
          with "1.prems"(2) show ?thesis by simp
        next
          case False
          then have "fl (2 * c) = 2 * fl (2 * c / 2)" using cpos by (subst fl.simps) simp
          with "1.prems"(2) show ?thesis by simp
        qed
        moreover have "2 * x \<le> 2 * c" using "1.prems" by simp
        ultimately have "fl (2 * x) \<le> 2 * c" using "1.IH"(2) [OF pos nb True] by blast
        moreover have "fl x = fl (2 * x) / 2" using pos nb True by (subst fl.simps) simp
        ultimately show ?thesis by simp
      next
        case mid: False
        have flx: "fl x = of_int (round_half_even x)"
          using pos nb mid by (subst fl.simps) simp
        show ?thesis
        proof (cases "c < 2 ^ 53")
          case True
          have "\<not> c < 2 ^ 52" using mid "1.prems"(1) by simp
          with True pos "1.prems"(1) have "fl c = of_int (round_half_even c)"
            by (subst fl.simps) simp
          with "1.prems"(2) have "c = of_int (round_half_even c)" by simp
          with "1.prems"(1) have "round_half_even x \<le> round_half_even c"
            by (intro round_half_even_le) simp
          then have "(of_int (round_half_even x) :: real) \<le> of_int (round_half_even c)"
            by simp
          with flx \<open>c = of_int (round_half_even c)\<close> show ?thesis by simp
        next
          case False
          have "x \<le> of_int (2 ^ 53)" using nb by simp
          then have "round_half_even x \<le> 2 ^ 53" by (rule round_half_even_le)
          then have "(of_int (round_half_even x) :: real) \<le> of_int (2 ^ 53)"
            by (simp only: of_int_le_iff)
          with flx False show ?thesis by simp
        qed
      qed
    qed
  qed
qed

lemma fl_1: "fl 1 = 1"
  by (simp add: fl.simps round_half_even_def)

lemma fl_100: "fl 100 = 100"
  by (simp add: fl.simps round_half_even_def)

lemma percent_range:
  assumes "sent \<le> total_size" and "0 < total_size"
  shows "\<exists>p. percent_of sent total_size = Num p \<and> 0 \<le> p \<and> p \<le> 100"
proof -
  let ?q = "fl (real sent / real total_size)"
  let ?y = "fl (?q * 100)"
  have "real sent / real total_size \<le> 1" using assms by simp
  then have q1: "?q \<le> 1" using fl_1 by (rule fl_le)
  have q0: "0 \<le> ?q" by (rule fl_nonneg)
  from q1 have "?q * 100 \<le> 100" by simp
  then have y1: "?y \<le> 100" using fl_100 by (rule fl_le)
  have y0: "0 \<le> ?y" by (rule fl_nonneg)
  have "0 \<le> Math_round ?y" using y0 by (simp add: Math_round_def)
  moreover have "Math_round ?y \<le> 100" using y1 unfolding Math_round_def by linarith
  ultimately show ?thesis using assms(2) by (simp add: percent_of_def)
qed

section \<open>The claims about the gallery\<close>

subsection \<open>C1: a notification for an element that is not one of the gallery's images\<close>

text \<open>
  C1, as stated: processing a notification whose item is not in \<open>Images\<close> performs no
  activation and leaves the state of every indicator unchanged. The handler has no test for
  the \<open>-1\<close> that \<open>indexOf\<close> returns, so a notification that passes the ratio test
  runs \<open>activateIndicator(-1)\<close>, which switches the active indicator off: with indicator
  20 active, a notification for the foreign element 99 at ratio 0.9 leaves it inactive.
\<close>

theorem unknown_item_counterexample:
  "target \<lparr>target = 99, isIntersecting = True, intersectionRatio = fl (9 / 10)\<rparr> \<notin> set (Images gallery_A) \<and>
   is_active doc_first 20 \<and>
   \<not> is_active (onIntersectionObserved gallery_A
        [\<lparr>target = 99, isIntersecting = True, intersectionRatio = fl (9 / 10)\<rparr>] doc_first) 20"
  by (simp add: example_defs run_defs)

text \<open>
  C1, amended: for a notification whose item is not in \<open>Images\<close>, no element becomes
  active and every element that was inactive keeps its class list; a notification that
  does not pass the test changes nothing at all, and one that passes it leaves no
  indicator of the gallery active.
\<close>

theorem unknown_item_deactivates:
  assumes "target e \<notin> set (Images g)"
  shows "(\<forall>x. is_active (onIntersectionObserved g [e] doc) x \<longrightarrow> is_active doc x) \<and>
         (\<forall>x. \<not> is_active doc x \<longrightarrow> onIntersectionObserved g [e] doc x = doc x) \<and>
         (\<not> qualifies e \<longrightarrow> onIntersectionObserved g [e] doc = doc) \<and>
         (qualifies e \<longrightarrow> active_count g (onIntersectionObserved g [e] doc) = 0)"
proof (cases "qualifies e")
  case False
  then show ?thesis by (simp add: onIntersectionObserved_single on_entry_skip)
next
  case True
  let ?d = "activateIndicator g (- 1) doc"
  have run: "onIntersectionObserved g [e] doc = ?d"
    using True assms
    by (simp add: onIntersectionObserved_single on_entry_activates indexOf_def indexOf_from_absent)
  have off: "\<not> is_active ?d x" if "x \<in> set (Indicators g)" for x
    using activateIndicator_none [of "- 1" g x doc] that by simp
  have same: "?d x = doc x" if "x \<notin> set (Indicators g)" for x
    using that by (rule activateIndicator_frame)
  have toggled: "?d x = toggles (forces (Indicators g) 0 (- 1) x) (doc x)" for x
    by (simp add: activateIndicator_def activate_from_apply)
  have "is_active ?d x \<longrightarrow> is_active doc x" for x
    using off [of x] same [of x] by (cases "x \<in> set (Indicators g)") (simp_all add: is_active_def)
  moreover have "?d x = doc x" if "\<not> is_active doc x" for x
    unfolding toggled
    by (rule toggles_all_false) (use that forces_none [of "Indicators g" 0 "- 1" _ x] in \<open>auto simp: is_active_def\<close>)
  moreover have "active_count g ?d = 0"
    using off by (simp add: active_count_def filter_empty_conv)
  ultimately show ?thesis using True by (simp add: run)
qed

theorem unknown_item_deactivates_witness:
  "target \<lparr>target = 99, isIntersecting = True, intersectionRatio = fl (9 / 10)\<rparr> \<notin> set (Images gallery_A) \<and>
   qualifies \<lparr>target = 99, isIntersecting = True, intersectionRatio = fl (9 / 10)\<rparr> \<and>
   active_count gallery_A doc_first = 1 \<and>
   active_count gallery_A (onIntersectionObserved gallery_A
        [\<lparr>target = 99, isIntersecting = True, intersectionRatio = fl (9 / 10)\<rparr>] doc_first) = 0"
proof -
  let ?e = "\<lparr>target = 99, isIntersecting = True, intersectionRatio = fl (9 / 10)\<rparr>"
  have a: "target ?e \<notin> set (Images gallery_A)" by (simp add: gallery_A_def)
  have q: "qualifies ?e" by (simp add: qualifies_def threshold_value fl.simps round_half_even_def)
  have c: "active_count gallery_A doc_first = 1"
    by (simp add: active_count_def is_active_def example_defs)
  from unknown_item_deactivates [OF a, of doc_first] a q c show ?thesis by simp
qed

subsection \<open>C2: at most one active indicator\<close>

text \<open>
  C2: however the notifications are grouped into batches, the document after the batches is
  the document after their entries in order. From the markup of a loaded page, at most one
  indicator is active after every prefix of the notifications, and none as long as no
  notification of the prefix passes the test. The bound does not need that markup: it
  holds from any document with at most one active indicator, and from any document at all
  once a notification of the prefix has passed the test.
\<close>

theorem at_most_one_active:
  assumes "distinct (Indicators g)"
  shows "deliver g batches doc = onIntersectionObserved g (concat batches) doc \<and>
         (page_loaded g doc \<longrightarrow>
            (\<forall>n. active_count g (onIntersectionObserved g (take n (concat batches)) doc) \<le> 1 \<and>
                 (\<not> list_ex qualifies (take n (concat batches)) \<longrightarrow>
                    active_count g (onIntersectionObserved g (take n (concat batches)) doc) = 0))) \<and>
         (active_count g doc \<le> 1 \<longrightarrow>
            (\<forall>n. active_count g (onIntersectionObserved g (take n (concat batches)) doc) \<le> 1)) \<and>
         (\<forall>n. list_ex qualifies (take n (concat batches)) \<longrightarrow>
              active_count g (onIntersectionObserved g (take n (concat batches)) doc) \<le> 1)"
proof (intro conjI impI allI)
  show "deliver g batches doc = onIntersectionObserved g (concat batches) doc"
    by (rule deliver_concat)
next
  fix n assume "page_loaded g doc"
  then have "active_count g doc \<le> 1" by (simp add: page_loaded_def)
  with assms show "active_count g (onIntersectionObserved g (take n (concat batches)) doc) \<le> 1"
    by (rule active_count_observed)
next
  fix n assume "page_loaded g doc" and "\<not> list_ex qualifies (take n (concat batches))"
  then have "active_count g doc = 0" and "\<forall>e \<in> set (take n (concat batches)). \<not> qualifies e"
    by (simp_all add: page_loaded_def list_ex_iff)
  then show "active_count g (onIntersectionObserved g (take n (concat batches)) doc) = 0"
    by (simp add: onIntersectionObserved_skip)
next
  fix n assume "active_count g doc \<le> 1"
  with assms show "active_count g (onIntersectionObserved g (take n (concat batches)) doc) \<le> 1"
    by (rule active_count_observed)
next
  fix n assume "list_ex qualifies (take n (concat batches))"
  with assms show "active_count g (onIntersectionObserved g (take n (concat batches)) doc) \<le> 1"
    by (rule active_count_after_qualifying)
qed

theorem at_most_one_active_witness:
  "distinct (Indicators gallery_A) \<and> page_loaded gallery_A doc_none \<and>
   \<not> list_ex qualifies
     (take 1 (concat [[\<lparr>target = 12, isIntersecting = True, intersectionRatio = 0\<rparr>],
                      [\<lparr>target = 13, isIntersecting = True, intersectionRatio = 1\<rparr>]])) \<and>
   active_count gallery_A (onIntersectionObserved gallery_A
     (take 1 (concat [[\<lparr>target = 12, isIntersecting = True, intersectionRatio = 0\<rparr>],
                      [\<lparr>target = 13, isIntersecting = True, intersectionRatio = 1\<rparr>]])) doc_none) = 0 \<and>
   active_count gallery_A (onIntersectionObserved gallery_A
     (take 2 (concat [[\<lparr>target = 12, isIntersecting = True, intersectionRatio = 0\<rparr>],
                      [\<lparr>target = 13, isIntersecting = True, intersectionRatio = 1\<rparr>]])) doc_none) \<le> 1 \<and>
   active_count gallery_A (doc_first(22 := [''Active''])) = 2 \<and>
   list_ex qualifies
     (take 2 (concat [[\<lparr>target = 12, isIntersecting = True, intersectionRatio = 0\<rparr>],
                      [\<lparr>target = 13, isIntersecting = True, intersectionRatio = 1\<rparr>]])) \<and>
   active_count gallery_A (onIntersectionObserved gallery_A
     (take 2 (concat [[\<lparr>target = 12, isIntersecting = True, intersectionRatio = 0\<rparr>],
                      [\<lparr>target = 13, isIntersecting = True, intersectionRatio = 1\<rparr>]]))
     (doc_first(22 := [''Active'']))) \<le> 1"
proof -
  let ?batches = "[[\<lparr>target = 12, isIntersecting = True, intersectionRatio = 0\<rparr>],
                   [\<lparr>target = 13, isIntersecting = True, intersectionRatio = 1\<rparr>]]"
  have d: "distinct (Indicators gallery_A)" by (simp add: gallery_A_def)
  have z: "page_loaded gallery_A doc_none"
    by (simp add: page_loaded_def active_count_def is_active_def example_defs)
  have two: "active_count gallery_A (doc_first(22 := [''Active''])) = 2"
    by (simp add: active_count_def is_active_def example_defs)
  have nq: "\<not> list_ex qualifies (take 1 (concat ?batches))"
    by (simp add: qualifies_def threshold_value fl.simps round_half_even_def)
  have q: "list_ex qualifies (take 2 (concat ?batches))"
    by (simp add: qualifies_def threshold_value fl.simps round_half_even_def)
  note t = at_most_one_active [OF d, of ?batches doc_none]
  note t2 = at_most_one_active [OF d, of ?batches "doc_first(22 := [''Active''])"]
  from t z have loaded_inv: "\<forall>n. active_count gallery_A
      (onIntersectionObserved gallery_A (take n (concat ?batches)) doc_none) \<le> 1 \<and>
      (\<not> list_ex qualifies (take n (concat ?batches)) \<longrightarrow>
         active_count gallery_A
           (onIntersectionObserved gallery_A (take n (concat ?batches)) doc_none) = 0)"
    by blast
  from loaded_inv [rule_format, of 2] have one: "active_count gallery_A
      (onIntersectionObserved gallery_A (take 2 (concat ?batches)) doc_none) \<le> 1"
    by blast
  from loaded_inv [rule_format, of 1] nq have none: "active_count gallery_A
      (onIntersectionObserved gallery_A (take 1 (concat ?batches)) doc_none) = 0"
    by blast
  from t2 q have "active_count gallery_A
      (onIntersectionObserved gallery_A (take 2 (concat ?batches)) (doc_first(22 := [''Active'']))) \<le> 1"
    by blast
  with d z nq q one none two show ?thesis by blast
qed

subsection \<open>C3: the threshold\<close>

text \<open>
  C3: a notification that is not intersecting, or whose ratio is strictly below 0.6, leaves
  the document as it is; a notification that is intersecting with a ratio of at least 0.6
  (0.6 included), for the image at index \<open>i\<close> of a well-formed gallery, runs the
  activation for \<open>i\<close>: afterwards the indicator at \<open>i\<close> is active and no other is.
  Here 0.6 is the binary64 number of that literal: it lies above 0.59, is not above the
  decimal 0.6, and is representable.
\<close>

theorem threshold_inclusive:
  "(\<not> isIntersecting e \<or> intersectionRatio e < threshold \<longrightarrow>
      onIntersectionObserved g [e] doc = doc) \<and>
   (isIntersecting e \<and> threshold \<le> intersectionRatio e \<and> wf_gallery g \<and>
    i < length (Images g) \<and> target e = Images g ! i \<longrightarrow>
      onIntersectionObserved g [e] doc = activateIndicator g (int i) doc \<and>
      (\<forall>j < length (Indicators g).
         is_active (onIntersectionObserved g [e] doc) (Indicators g ! j) = (j = i))) \<and>
   59 / 100 < threshold \<and> threshold \<le> 6 / 10 \<and> fl threshold = threshold"
proof (intro conjI impI)
  show "59 / 100 < threshold" "threshold \<le> 6 / 10" "fl threshold = threshold"
    by (simp_all add: threshold_value fl.simps round_half_even_def)
next
  assume "\<not> isIntersecting e \<or> intersectionRatio e < threshold"
  then have "\<not> qualifies e" by (auto simp: qualifies_def)
  then show "onIntersectionObserved g [e] doc = doc"
    by (simp add: onIntersectionObserved_single on_entry_skip)
next
  assume h: "isIntersecting e \<and> threshold \<le> intersectionRatio e \<and> wf_gallery g \<and>
    i < length (Images g) \<and> target e = Images g ! i"
  then have q: "qualifies e" by (simp add: qualifies_def threshold_value fl.simps round_half_even_def)
  from h q show "onIntersectionObserved g [e] doc = activateIndicator g (int i) doc"
    by (simp add: onIntersectionObserved_single on_entry_nth)
  from h q show "\<forall>j < length (Indicators g).
         is_active (onIntersectionObserved g [e] doc) (Indicators g ! j) = (j = i)"
    by (simp add: onIntersectionObserved_single on_entry_nth_active)
qed

theorem threshold_inclusive_witness:
  "wf_gallery gallery_A \<and> 1 < length (Images gallery_A) \<and>
   onIntersectionObserved gallery_A
     [\<lparr>target = 11, isIntersecting = True, intersectionRatio = fl (59 / 100)\<rparr>] doc_first = doc_first \<and>
   onIntersectionObserved gallery_A
     [\<lparr>target = 11, isIntersecting = False, intersectionRatio = fl (9 / 10)\<rparr>] doc_first = doc_first \<and>
   is_active (onIntersectionObserved gallery_A
     [\<lparr>target = 11, isIntersecting = True, intersectionRatio = fl (6 / 10)\<rparr>] doc_first)
     (Indicators gallery_A ! 1) \<and>
   \<not> is_active (onIntersectionObserved gallery_A
     [\<lparr>target = 11, isIntersecting = True, intersectionRatio = fl (6 / 10)\<rparr>] doc_first)
     (Indicators gallery_A ! 0)"
proof -
  have w: "wf_gallery gallery_A" and l: "1 < length (Images gallery_A)"
    and l': "1 < length (Indicators gallery_A)" "0 < length (Indicators gallery_A)"
    and t: "Images gallery_A ! 1 = 11"
    by (simp_all add: wf_gallery_def gallery_A_def)
  note low = threshold_inclusive
    [of "\<lparr>target = 11, isIntersecting = True, intersectionRatio = fl (59 / 100)\<rparr>" gallery_A doc_first 1]
  note off = threshold_inclusive
    [of "\<lparr>target = 11, isIntersecting = False, intersectionRatio = fl (9 / 10)\<rparr>" gallery_A doc_first 1]
  note edge = threshold_inclusive
    [of "\<lparr>target = 11, isIntersecting = True, intersectionRatio = fl (6 / 10)\<rparr>" gallery_A doc_first 1]
  have pre: "isIntersecting \<lparr>target = 11, isIntersecting = True, intersectionRatio = fl (6 / 10)\<rparr> \<and>
      threshold \<le> intersectionRatio \<lparr>target = 11, isIntersecting = True, intersectionRatio = fl (6 / 10)\<rparr> \<and>
      wf_gallery gallery_A \<and> 1 < length (Images gallery_A) \<and>
      target \<lparr>target = 11, isIntersecting = True, intersectionRatio = fl (6 / 10)\<rparr> = Images gallery_A ! 1"
    using w l t by (simp add: threshold_def)
  note act = edge [THEN conjunct2, THEN conjunct1, rule_format, OF pre, THEN conjunct2, rule_format]
  have "onIntersectionObserved gallery_A
     [\<lparr>target = 11, isIntersecting = True, intersectionRatio = fl (59 / 100)\<rparr>] doc_first = doc_first"
    using low by (simp add: threshold_value fl.simps round_half_even_def)
  moreover have "onIntersectionObserved gallery_A
     [\<lparr>target = 11, isIntersecting = False, intersectionRatio = fl (9 / 10)\<rparr>] doc_first = doc_first"
    using off by simp
  ultimately show ?thesis using act [OF l'(1)] act [OF l'(2)] w l by simp
qed

subsection \<open>C4: a later activation supersedes an earlier one\<close>

text \<open>
  C4: from any document, after the notifications for index 2 at ratio 0.9, index 2 at ratio
  0.0 and index 5 at ratio 0.8 (all intersecting), in this order, exactly the indicator at
  index 5 is active, whether they arrive in one batch or in three; the second notification
  is ignored, the document after the first two being the one with index 2 activated.
\<close>

theorem superseding_sequence:
  assumes "wf_gallery g" and "5 < length (Images g)"
  shows "(\<forall>j < length (Indicators g).
            is_active (onIntersectionObserved g
              [\<lparr>target = Images g ! 2, isIntersecting = True, intersectionRatio = fl (9 / 10)\<rparr>,
               \<lparr>target = Images g ! 2, isIntersecting = True, intersectionRatio = 0\<rparr>,
               \<lparr>target = Images g ! 5, isIntersecting = True, intersectionRatio = fl (8 / 10)\<rparr>] doc)
              (Indicators g ! j) = (j = 5)) \<and>
         deliver g
              [[\<lparr>target = Images g ! 2, isIntersecting = True, intersectionRatio = fl (9 / 10)\<rparr>],
               [\<lparr>target = Images g ! 2, isIntersecting = True, intersectionRatio = 0\<rparr>],
               [\<lparr>target = Images g ! 5, isIntersecting = True, intersectionRatio = fl (8 / 10)\<rparr>]] doc =
         onIntersectionObserved g
              [\<lparr>target = Images g ! 2, isIntersecting = True, intersectionRatio = fl (9 / 10)\<rparr>,
               \<lparr>target = Images g ! 2, isIntersecting = True, intersectionRatio = 0\<rparr>,
               \<lparr>target = Images g ! 5, isIntersecting = True, intersectionRatio = fl (8 / 10)\<rparr>] doc \<and>
         onIntersectionObserved g
              [\<lparr>target = Images g ! 2, isIntersecting = True, intersectionRatio = fl (9 / 10)\<rparr>,
               \<lparr>target = Images g ! 2, isIntersecting = True, intersectionRatio = 0\<rparr>] doc =
         activateIndicator g 2 doc"
proof -
  let ?e1 = "\<lparr>target = Images g ! 2, isIntersecting = True, intersectionRatio = fl (9 / 10)\<rparr>"
  let ?e2 = "\<lparr>target = Images g ! 2, isIntersecting = True, intersectionRatio = 0\<rparr>"
  let ?e3 = "\<lparr>target = Images g ! 5, isIntersecting = True, intersectionRatio = fl (8 / 10)\<rparr>"
  have q: "qualifies ?e1" "\<not> qualifies ?e2" "qualifies ?e3" by (simp_all add: qualifies_def threshold_value fl.simps round_half_even_def)
  have l2: "2 < length (Images g)" using assms(2) by simp
  have s1: "on_entry g ?e1 doc = activateIndicator g 2 doc"
    using on_entry_nth [OF assms(1) q(1) l2, of doc] by simp
  have s2: "on_entry g ?e2 d = d" for d using q(2) by (rule on_entry_skip)
  have s3: "is_active (on_entry g ?e3 d) (Indicators g ! j) = (j = 5)"
    if "j < length (Indicators g)" for d j
    using on_entry_nth_active [OF assms(1) q(3) assms(2) _ that, of d] by simp
  have run: "onIntersectionObserved g [?e1, ?e2, ?e3] doc =
      on_entry g ?e3 (on_entry g ?e2 (on_entry g ?e1 doc))"
    and run2: "onIntersectionObserved g [?e1, ?e2] doc = on_entry g ?e2 (on_entry g ?e1 doc)"
    and batches: "deliver g [[?e1], [?e2], [?e3]] doc =
      onIntersectionObserved g [?e1, ?e2, ?e3] doc"
    by (simp_all only: onIntersectionObserved_def deliver_def fold_simps)
  show ?thesis
    unfolding batches run run2 s2 using s3 s1 by blast
qed

theorem superseding_sequence_witness:
  "wf_gallery gallery_A \<and> 5 < length (Images gallery_A) \<and> is_active doc_first 20 \<and>
   \<not> is_active (onIntersectionObserved gallery_A
              [\<lparr>target = Images gallery_A ! 2, isIntersecting = True, intersectionRatio = fl (9 / 10)\<rparr>,
               \<lparr>target = Images gallery_A ! 2, isIntersecting = True, intersectionRatio = 0\<rparr>,
               \<lparr>target = Images gallery_A ! 5, isIntersecting = True, intersectionRatio = fl (8 / 10)\<rparr>]
              doc_first) (Indicators gallery_A ! 2) \<and>
   is_active (onIntersectionObserved gallery_A
              [\<lparr>target = Images gallery_A ! 2, isIntersecting = True, intersectionRatio = fl (9 / 10)\<rparr>,
               \<lparr>target = Images gallery_A ! 2, isIntersecting = True, intersectionRatio = 0\<rparr>,
               \<lparr>target = Images gallery_A ! 5, isIntersecting = True, intersectionRatio = fl (8 / 10)\<rparr>]
              doc_first) (Indicators gallery_A ! 5)"
proof -
  have w: "wf_gallery gallery_A" and l: "5 < length (Images gallery_A)"
    and l': "5 < length (Indicators gallery_A)" "2 < length (Indicators gallery_A)"
    by (simp_all add: wf_gallery_def gallery_A_def)
  have a: "is_active doc_first 20" by (simp add: is_active_def example_defs)
  note s = superseding_sequence [OF w l, of doc_first, THEN conjunct1, rule_format]
  from s [OF l'(1)] s [OF l'(2)] w l a show ?thesis by simp
qed

subsection \<open>C5: activation is idempotent\<close>

text \<open>
  C5: activating an index twice in succession gives the same document as activating it
  once, for every document and every index; delivering the same notification a second
  time changes nothing; and in a document where the indicator at \<open>i\<close> is the one that
  is active, activating \<open>i\<close> changes nothing.
\<close>

theorem activation_idempotent:
  "activateIndicator g i (activateIndicator g i doc) = activateIndicator g i doc \<and>
   onIntersectionObserved g [e] (onIntersectionObserved g [e] doc) =
     onIntersectionObserved g [e] doc \<and>
   ((\<forall>j < length (Indicators g). is_active doc (Indicators g ! j) = (int j = i)) \<longrightarrow>
      activateIndicator g i doc = doc)"
proof (intro conjI impI)
  show "activateIndicator g i (activateIndicator g i doc) = activateIndicator g i doc"
    by (rule activateIndicator_idem)
next
  have "on_entry g e (on_entry g e doc) = on_entry g e doc" by (rule on_entry_idem)
  then show "onIntersectionObserved g [e] (onIntersectionObserved g [e] doc) =
     onIntersectionObserved g [e] doc"
    by (simp only: onIntersectionObserved_single)
next
  assume "\<forall>j < length (Indicators g). is_active doc (Indicators g ! j) = (int j = i)"
  then have "\<forall>j < length (Indicators g). is_active doc (Indicators g ! j) = (int (0 + j) = i)"
    by simp
  then show "activateIndicator g i doc = doc"
    unfolding activateIndicator_def by (rule activate_from_same)
qed

theorem activation_idempotent_witness:
  "length (Indicators gallery_A) = 6 \<and>
   is_active doc_first (Indicators gallery_A ! 0) \<and>
   \<not> is_active doc_first (Indicators gallery_A ! 1) \<and>
   \<not> is_active doc_first (Indicators gallery_A ! 2) \<and>
   \<not> is_active doc_first (Indicators gallery_A ! 3) \<and>
   \<not> is_active doc_first (Indicators gallery_A ! 4) \<and>
   \<not> is_active doc_first (Indicators gallery_A ! 5) \<and>
   activateIndicator gallery_A 0 doc_first = doc_first \<and>
   activateIndicator gallery_A 4 (activateIndicator gallery_A 4 doc_first) =
     activateIndicator gallery_A 4 doc_first \<and>
   onIntersectionObserved gallery_A
     [\<lparr>target = 14, isIntersecting = True, intersectionRatio = 1\<rparr>]
     (onIntersectionObserved gallery_A
        [\<lparr>target = 14, isIntersecting = True, intersectionRatio = 1\<rparr>] doc_first) =
   onIntersectionObserved gallery_A
     [\<lparr>target = 14, isIntersecting = True, intersectionRatio = 1\<rparr>] doc_first"
proof -
  have "is_active doc_first (Indicators gallery_A ! j) = (int j = 0)"
    if "j < length (Indicators gallery_A)" for j
  proof -
    from that have "j < 6" by (simp add: gallery_A_def)
    then have "j \<in> {0, 1, 2, 3, 4, 5}" by auto
    then show ?thesis by (auto simp: is_active_def example_defs)
  qed
  then have h: "\<forall>j < length (Indicators gallery_A).
      is_active doc_first (Indicators gallery_A ! j) = (int j = 0)" by blast
  have each: "length (Indicators gallery_A) = 6"
    "is_active doc_first (Indicators gallery_A ! 0)"
    "\<not> is_active doc_first (Indicators gallery_A ! 1)"
    "\<not> is_active doc_first (Indicators gallery_A ! 2)"
    "\<not> is_active doc_first (Indicators gallery_A ! 3)"
    "\<not> is_active doc_first (Indicators gallery_A ! 4)"
    "\<not> is_active doc_first (Indicators gallery_A ! 5)"
    by (simp_all add: is_active_def example_defs)
  from activation_idempotent
      [of gallery_A 0 doc_first "\<lparr>target = 14, isIntersecting = True, intersectionRatio = 1\<rparr>"] h
    activation_idempotent
      [of gallery_A 4 doc_first "\<lparr>target = 14, isIntersecting = True, intersectionRatio = 1\<rparr>"]
    each
  show ?thesis by blast
qed

subsection \<open>C6: activation at an index in range\<close>

text \<open>
  C6: for an index \<open>i\<close> below the number of indicators, after \<open>activateIndicator(i)\<close>
  the indicator at \<open>i\<close> is active and every other indicator of the gallery is inactive,
  whatever the document was before.
\<close>

theorem activateIndicator_in_range:
  assumes "distinct (Indicators g)" and "i < length (Indicators g)"
  shows "\<forall>j < length (Indicators g).
           is_active (activateIndicator g (int i) doc) (Indicators g ! j) = (j = i)"
  using assms by (simp add: activateIndicator_nth)

theorem activateIndicator_in_range_witness:
  "distinct (Indicators gallery_A) \<and> 3 < length (Indicators gallery_A) \<and>
   is_active doc_first 20 \<and>
   \<not> is_active (activateIndicator gallery_A 3 doc_first) (Indicators gallery_A ! 0) \<and>
   is_active (activateIndicator gallery_A 3 doc_first) (Indicators gallery_A ! 3)"
proof -
  have d: "distinct (Indicators gallery_A)" and l: "3 < length (Indicators gallery_A)"
    by (simp_all add: gallery_A_def)
  have a: "is_active doc_first 20" by (simp add: is_active_def example_defs)
  have h: "\<forall>j < length (Indicators gallery_A).
      is_active (activateIndicator gallery_A (int 3) doc_first) (Indicators gallery_A ! j) = (j = 3)"
    by (rule activateIndicator_in_range [OF d l])
  have "0 < length (Indicators gallery_A)" by (simp add: gallery_A_def)
  from h [rule_format, OF this] h [rule_format, OF l] l d a show ?thesis by simp
qed

subsection \<open>C7: two galleries on one page\<close>

text \<open>
  C7: for two galleries whose indicator lists share no element, notifications processed
  by one change no class list of the other's indicators; and after each has received a
  passing notification for its image at index 1, each has exactly its indicator at index 1
  active.
\<close>

theorem galleries_independent:
  "(set (Indicators A) \<inter> set (Indicators B) = {} \<longrightarrow>
      (\<forall>y \<in> set (Indicators B). onIntersectionObserved A es doc y = doc y)) \<and>
   (set (Indicators A) \<inter> set (Indicators B) = {} \<and> wf_gallery A \<and> wf_gallery B \<and>
    1 < length (Images A) \<and> 1 < length (Images B) \<and>
    qualifies eA \<and> target eA = Images A ! 1 \<and> qualifies eB \<and> target eB = Images B ! 1 \<longrightarrow>
      (\<forall>j < length (Indicators A).
         is_active (onIntersectionObserved B [eB] (onIntersectionObserved A [eA] doc))
           (Indicators A ! j) = (j = 1)) \<and>
      (\<forall>j < length (Indicators B).
         is_active (onIntersectionObserved B [eB] (onIntersectionObserved A [eA] doc))
           (Indicators B ! j) = (j = 1)))"
proof (intro conjI impI)
  assume "set (Indicators A) \<inter> set (Indicators B) = {}"
  then show "\<forall>y \<in> set (Indicators B). onIntersectionObserved A es doc y = doc y"
    by (auto intro: onIntersectionObserved_frame)
next
  assume h: "set (Indicators A) \<inter> set (Indicators B) = {} \<and> wf_gallery A \<and> wf_gallery B \<and>
    1 < length (Images A) \<and> 1 < length (Images B) \<and>
    qualifies eA \<and> target eA = Images A ! 1 \<and> qualifies eB \<and> target eB = Images B ! 1"
  let ?d1 = "onIntersectionObserved A [eA] doc"
  let ?d2 = "onIntersectionObserved B [eB] ?d1"
  show "\<forall>j < length (Indicators A). is_active ?d2 (Indicators A ! j) = (j = 1)"
  proof (intro allI impI)
    fix j assume j: "j < length (Indicators A)"
    then have "Indicators A ! j \<notin> set (Indicators B)" using h by (auto dest: nth_mem)
    then have "?d2 (Indicators A ! j) = ?d1 (Indicators A ! j)"
      by (rule onIntersectionObserved_frame)
    then have "is_active ?d2 (Indicators A ! j) = is_active ?d1 (Indicators A ! j)"
      by (simp add: is_active_def)
    also have "\<dots> = (j = 1)"
      using h j by (simp add: onIntersectionObserved_single on_entry_nth_active)
    finally show "is_active ?d2 (Indicators A ! j) = (j = 1)" .
  qed
  show "\<forall>j < length (Indicators B). is_active ?d2 (Indicators B ! j) = (j = 1)"
    using h by (simp add: onIntersectionObserved_single on_entry_nth_active)
qed

theorem galleries_independent_witness:
  "set (Indicators gallery_A) \<inter> set (Indicators gallery_B) = {} \<and>
   wf_gallery gallery_A \<and> wf_gallery gallery_B \<and>
   qualifies \<lparr>target = 11, isIntersecting = True, intersectionRatio = 1\<rparr> \<and>
   qualifies \<lparr>target = 31, isIntersecting = True, intersectionRatio = fl (7 / 10)\<rparr> \<and>
   onIntersectionObserved gallery_A
     [\<lparr>target = 11, isIntersecting = True, intersectionRatio = 1\<rparr>] doc_first 40 = doc_first 40 \<and>
   is_active (onIntersectionObserved gallery_B
       [\<lparr>target = 31, isIntersecting = True, intersectionRatio = fl (7 / 10)\<rparr>]
       (onIntersectionObserved gallery_A
          [\<lparr>target = 11, isIntersecting = True, intersectionRatio = 1\<rparr>] doc_first))
     (Indicators gallery_A ! 1) \<and>
   is_active (onIntersectionObserved gallery_B
       [\<lparr>target = 31, isIntersecting = True, intersectionRatio = fl (7 / 10)\<rparr>]
       (onIntersectionObserved gallery_A
          [\<lparr>target = 11, isIntersecting = True, intersectionRatio = 1\<rparr>] doc_first))
     (Indicators gallery_B ! 1)"
proof -
  let ?eA = "\<lparr>target = 11, isIntersecting = True, intersectionRatio = 1\<rparr>"
  let ?eB = "\<lparr>target = 31, isIntersecting = True, intersectionRatio = fl (7 / 10)\<rparr>"
  have dj: "set (Indicators gallery_A) \<inter> set (Indicators gallery_B) = {}"
    and w: "wf_gallery gallery_A" "wf_gallery gallery_B"
    and l: "1 < length (Images gallery_A)" "1 < length (Images gallery_B)"
    and l': "1 < length (Indicators gallery_A)" "1 < length (Indicators gallery_B)"
    and t: "target ?eA = Images gallery_A ! 1" "target ?eB = Images gallery_B ! 1"
    and m: "40 \<in> set (Indicators gallery_B)"
    by (simp_all add: wf_gallery_def gallery_A_def gallery_B_def)
  have q: "qualifies ?eA" "qualifies ?eB" by (simp_all add: qualifies_def threshold_value fl.simps round_half_even_def)
  note ind = galleries_independent [of gallery_A gallery_B "[?eA]" doc_first ?eA ?eB]
  have frame: "onIntersectionObserved gallery_A [?eA] doc_first 40 = doc_first 40"
    using ind [THEN conjunct1, rule_format, OF dj m] .
  have pre: "set (Indicators gallery_A) \<inter> set (Indicators gallery_B) = {} \<and>
    wf_gallery gallery_A \<and> wf_gallery gallery_B \<and>
    1 < length (Images gallery_A) \<and> 1 < length (Images gallery_B) \<and>
    qualifies ?eA \<and> target ?eA = Images gallery_A ! 1 \<and>
    qualifies ?eB \<and> target ?eB = Images gallery_B ! 1"
    using dj w l q t by blast
  note both = ind [THEN conjunct2, rule_format, OF pre]
  from both [THEN conjunct1, rule_format, OF l'(1)] both [THEN conjunct2, rule_format, OF l'(2)]
    frame dj w q
  show ?thesis by blast
qed

subsection \<open>C10: activation at an index out of range\<close>

text \<open>
  C10: for an index that is negative or not below the number of indicators,
  \<open>activateIndicator\<close> leaves every indicator of the gallery inactive, so none is active;
  \<open>indexOf\<close> gives \<open>-1\<close>, such an index, for an element that is not in \<open>Images\<close>.
\<close>

theorem activateIndicator_out_of_range:
  "(index < 0 \<or> int (length (Indicators g)) \<le> index \<longrightarrow>
      (\<forall>x \<in> set (Indicators g). \<not> is_active (activateIndicator g index doc) x) \<and>
      active_count g (activateIndicator g index doc) = 0) \<and>
   (x \<notin> set (Images g) \<longrightarrow>
      indexOf (Images g) x = - 1 \<and>
      active_count g (activateIndicator g (indexOf (Images g) x) doc) = 0)"
proof -
  have *: "(\<forall>x \<in> set (Indicators g). \<not> is_active (activateIndicator g k doc) x) \<and>
      active_count g (activateIndicator g k doc) = 0"
    if "k < 0 \<or> int (length (Indicators g)) \<le> k" for k
    using activateIndicator_none [OF that] by (simp add: active_count_def filter_empty_conv)
  have "indexOf (Images g) x = - 1" if "x \<notin> set (Images g)"
    using that by (simp add: indexOf_def indexOf_from_absent)
  with * [of index] * [of "- 1"] show ?thesis by simp
qed

theorem activateIndicator_out_of_range_witness:
  "((- 1 :: int) < 0 \<or> int (length (Indicators gallery_A)) \<le> - 1) \<and>
   99 \<notin> set (Images gallery_A) \<and> indexOf (Images gallery_A) 99 = - 1 \<and>
   active_count gallery_A doc_first = 1 \<and>
   active_count gallery_A (activateIndicator gallery_A (- 1) doc_first) = 0 \<and>
   active_count gallery_A (activateIndicator gallery_A 6 doc_first) = 0"
proof -
  have "99 \<notin> set (Images gallery_A)" by (simp add: gallery_A_def)
  moreover have "int (length (Indicators gallery_A)) \<le> 6" by (simp add: gallery_A_def)
  moreover have "active_count gallery_A doc_first = 1"
    by (simp add: active_count_def is_active_def example_defs)
  ultimately show ?thesis
    using activateIndicator_out_of_range [of "- 1" gallery_A doc_first 99]
      activateIndicator_out_of_range [of 6 gallery_A doc_first 99]
    by simp
qed

section \<open>The claims about the upload helper\<close>

subsection \<open>C8: one request\<close>

text \<open>
  C8: \<open>postFile\<close> sends once; the body is the description followed by the selected
  files in order, the request is opened with method \<open>post\<close> on the detected base path
  followed by \<open>/upload/\<close>, and its timeout is 3600000 milliseconds.
\<close>

theorem postFile_submits_once:
  "postFile (serve_prefix pathname) form =
     [AddUploadListener ''progress'' (sum_list (map file_size (FilesToUpload form))),
      Open ''post'' (serve_prefix pathname @ ''/upload/''),
      SetTimeout 3600000,
      Send ((''Desc'', StringValue (Desc form)) #
            map (\<lambda>f. (''FileToUpload'', FileValue f)) (FilesToUpload form))] \<and>
   length (filter is_Send (postFile (serve_prefix pathname) form)) = 1"
proof -
  have loop: "files_loop (FilesToUpload form) 0 [(''Desc'', StringValue (Desc form))] 0 =
      ((''Desc'', StringValue (Desc form)) #
         map (\<lambda>f. (''FileToUpload'', FileValue f)) (FilesToUpload form),
       sum_list (map file_size (FilesToUpload form)))"
    by (simp add: files_loop_eq)
  have calls: "postFile prefix form =
     [AddUploadListener ''progress'' (sum_list (map file_size (FilesToUpload form))),
      Open ''post'' (prefix @ ''/upload/''),
      SetTimeout 3600000,
      Send ((''Desc'', StringValue (Desc form)) #
            map (\<lambda>f. (''FileToUpload'', FileValue f)) (FilesToUpload form))]" for prefix
    by (simp add: postFile_def FormData_append_def loop)
  show ?thesis unfolding calls by simp
qed

theorem postFile_submits_once_witness:
  "postFile (serve_prefix ''/pics/Upload/'') form_example =
     [AddUploadListener ''progress'' 1024,
      Open ''post'' ''/pics/upload/'',
      SetTimeout 3600000,
      Send [(''Desc'', StringValue ''holiday''),
            (''FileToUpload'', FileValue \<lparr>file_name = ''a.jpg'', file_size = 700\<rparr>),
            (''FileToUpload'', FileValue \<lparr>file_name = ''b.jpg'', file_size = 324\<rparr>)]] \<and>
   postFile (serve_prefix ''/upload'') \<lparr>Desc = [], FilesToUpload = []\<rparr> =
     [AddUploadListener ''progress'' 0, Open ''post'' ''/upload/'', SetTimeout 3600000,
      Send [(''Desc'', StringValue [])]]"
proof -
  have "serve_prefix ''/pics/Upload/'' = ''/pics''" and "serve_prefix ''/upload'' = []"
    by (simp_all add: serve_prefix_def match_upload_def ends_with_ci_def ascii_lower_def
        line_terminator_def)
  then show ?thesis
    using postFile_submits_once [of "''/pics/Upload/''" form_example]
      postFile_submits_once [of "''/upload''" "\<lparr>Desc = [], FilesToUpload = []\<rparr>"]
    by (simp add: form_example_def)
qed

subsection \<open>C9: the percentage shown\<close>

text \<open>
  C9, as stated: the percentage written is bytes sent over bytes total, times 100, rounded,
  and lies between 0 and 100. The listener divides by the summed size of the files, not
  by the total of the event: with files of 1024 bytes in a body of 2048 bytes, the event
  at 512 bytes writes 50 where the claim gives 25. Read with the summed size as the
  total, the claim gives 200 for the event at 2048 bytes, where the listener writes 100.
\<close>

theorem progress_percent_counterexample:
  "innerHTML (progress_listener 1024 \<lparr>loaded = 512, total = 2048\<rparr> bar_empty) = ''50%'' \<and>
   style_width (progress_listener 1024 \<lparr>loaded = 512, total = 2048\<rparr> bar_empty) = ''50%'' \<and>
   to_string (Num (claimed_percent 512 2048)) @ ''%'' = ''25%'' \<and>
   innerHTML (progress_listener 1024 \<lparr>loaded = 2048, total = 2048\<rparr> bar_empty) = ''100%'' \<and>
   to_string (Num (claimed_percent 2048 1024)) @ ''%'' = ''200%''"
  by (simp add: progress_listener_def percent_of_def Math_round_def fl.simps round_half_even_def
     set_style_width_def to_string_def decimal.simps digit_char_def bar_empty_def
     claimed_percent_def round_def)

text \<open>
  C9, amended: with \<open>S > 0\<close> the summed size of the selected files (the \<open>total_size\<close>
  that the listener of \<open>postFile\<close> closes over), an event whose bytes sent equal its
  bytes total sets width and label to 100 percent; any other event with bytes sent at most
  \<open>S\<close> sets both to \<open>Math.round(sent / S * 100)\<close>, computed in binary64, a value
  between 0 and 100; any other event leaves the bar as it is.
\<close>

theorem progress_percent_of_files:
  assumes "0 < total_size"
  shows "(loaded e = total e \<longrightarrow>
            style_width (progress_listener total_size e bar) = ''100%'' \<and>
            innerHTML (progress_listener total_size e bar) = ''100%'') \<and>
         (loaded e \<noteq> total e \<and> loaded e \<le> total_size \<longrightarrow>
            (let p = Math_round (fl (fl (real (loaded e) / real total_size) * 100))
             in 0 \<le> p \<and> p \<le> 100 \<and>
                style_width (progress_listener total_size e bar) = decimal (nat p) @ ''%'' \<and>
                innerHTML (progress_listener total_size e bar) = decimal (nat p) @ ''%'')) \<and>
         (loaded e \<noteq> total e \<and> total_size < loaded e \<longrightarrow>
            progress_listener total_size e bar = bar)"
proof (intro conjI impI)
  assume "loaded e \<noteq> total e \<and> loaded e \<le> total_size"
  then have ne: "loaded e \<noteq> total e" and le: "loaded e \<le> total_size" by simp_all
  from percent_range [OF le assms] obtain p where
    p: "percent_of (loaded e) total_size = Num p" "0 \<le> p" "p \<le> 100" by blast
  from p(1) assms have "p = Math_round (fl (fl (real (loaded e) / real total_size) * 100))"
    by (simp add: percent_of_def)
  moreover have "style_width (progress_listener total_size e bar) = decimal (nat p) @ ''%''"
    and "innerHTML (progress_listener total_size e bar) = decimal (nat p) @ ''%''"
    using ne le p by (simp_all add: progress_listener_def set_style_width_def to_string_def)
  ultimately show "let p = Math_round (fl (fl (real (loaded e) / real total_size) * 100))
             in 0 \<le> p \<and> p \<le> 100 \<and>
                style_width (progress_listener total_size e bar) = decimal (nat p) @ ''%'' \<and>
                innerHTML (progress_listener total_size e bar) = decimal (nat p) @ ''%''"
    using p(2,3) by (simp add: Let_def)
qed (simp_all add: progress_listener_def)

theorem progress_percent_of_files_witness:
  "(0::nat) < 200 \<and>
   loaded \<lparr>loaded = 57, total = 2048\<rparr> \<noteq> total \<lparr>loaded = 57, total = 2048\<rparr> \<and>
   loaded \<lparr>loaded = 57, total = 2048\<rparr> \<le> 200 \<and>
   Math_round (fl (fl (real (loaded \<lparr>loaded = 57, total = 2048\<rparr>) / real (200::nat)) * 100)) = 28 \<and>
   style_width (progress_listener 200 \<lparr>loaded = 57, total = 2048\<rparr> bar_empty) = ''28%'' \<and>
   innerHTML (progress_listener 200 \<lparr>loaded = 57, total = 2048\<rparr> bar_empty) = ''28%'' \<and>
   innerHTML (progress_listener 200 \<lparr>loaded = 2048, total = 2048\<rparr> bar_empty) = ''100%'' \<and>
   progress_listener 200 \<lparr>loaded = 1000, total = 2048\<rparr> bar_empty = bar_empty"
proof -
  have pos: "(0::nat) < 200" by simp
  have r: "Math_round (fl (fl (real (loaded \<lparr>loaded = 57, total = 2048\<rparr>) / real (200::nat)) * 100)) = 28"
    by (simp add: Math_round_def fl.simps round_half_even_def)
  have d: "decimal (nat 28) = ''28''" by (simp add: decimal.simps digit_char_def)
  note t = progress_percent_of_files [OF pos]
  from t [of "\<lparr>loaded = 57, total = 2048\<rparr>" bar_empty]
    t [of "\<lparr>loaded = 2048, total = 2048\<rparr>" bar_empty]
    t [of "\<lparr>loaded = 1000, total = 2048\<rparr>" bar_empty] r d
  show ?thesis by (simp add: Let_def)
qed

end
